theory Spec2Isabelle
  imports Main "HOL-Library.Word"
begin

section \<open>Shared types\<close>

type_synonym uint64 = "64 word"
type_synonym int64 = "64 word"
type_synonym address = "160 word"
type_synonym hash = "256 word"

text \<open>
  Go's \<open>error\<close> values. The three package-level sentinels of \<open>transfer/queue.go\<close>,
  the wrapper built by \<open>fmt.Errorf("transaction %q failed in queue: %w", txHash, e)\<close>,
  and the errors that come from the collaborators (chain client, send operation).
\<close>

datatype error =
    ErrQueueClosed
  | ErrQueueMissingResult
  | ErrTrasactionMissing
  | ErrFailedInQueue hash error
  | ErrOther string

section \<open>Nonce tracker (client/nonce\_tracker.go)\<close>

text \<open>
  \<open>nt.client.PendingNonceAt(ctx, account)\<close> is a query to the chain; its answer at the
  moment of a call is a function from the account to the pair \<open>(uint64, error)\<close> that Go
  returns. \<open>GetNonce\<close> takes it as an argument: the chain may answer differently at every
  call. The mutex makes each call atomic, so a run is a sequence of calls.
\<close>

type_synonym PendingNonceAt = "address \<Rightarrow> uint64 \<times> error option"

record NonceTracker =
  nonces :: "address \<rightharpoonup> uint64"

definition NewNonceTracker :: NonceTracker where
  "NewNonceTracker = \<lparr>nonces = Map.empty\<rparr>"

definition GetNonce ::
  "PendingNonceAt \<Rightarrow> NonceTracker \<Rightarrow> address \<Rightarrow> (uint64 \<times> error option) \<times> NonceTracker" where
  "GetNonce client nt account =
     (case nonces nt account of
        Some v \<Rightarrow>
          (let v' = v + 1
           in ((v', None), nt\<lparr>nonces := (nonces nt)(account \<mapsto> v')\<rparr>))
      | None \<Rightarrow>
          (let (nonce, err) = client account
           in if err \<noteq> None then ((nonce, err), nt)
              else ((nonce, None), nt\<lparr>nonces := (nonces nt)(account \<mapsto> nonce)\<rparr>)))"

text \<open>
  A serialized run of calls: each call names its account and carries the chain's answer
  at that moment. The result lists, in call order, the account and what the call returned.
\<close>

fun GetNonces ::
  "NonceTracker \<Rightarrow> (PendingNonceAt \<times> address) list
    \<Rightarrow> (address \<times> uint64 \<times> error option) list \<times> NonceTracker" where
  "GetNonces nt [] = ([], nt)"
| "GetNonces nt ((client, account) # cs) =
     (let (r, nt') = GetNonce client nt account;
          (rs, nt'') = GetNonces nt' cs
      in ((account, r) # rs, nt''))"

text \<open>What the calls for one account returned, in call order.\<close>

definition returned_for ::
  "address \<Rightarrow> (address \<times> uint64 \<times> error option) list \<Rightarrow> (uint64 \<times> error option) list" where
  "returned_for a rs = map snd (filter (\<lambda>x. fst x = a) rs)"

definition calls_for :: "address \<Rightarrow> (PendingNonceAt \<times> address) list \<Rightarrow> (PendingNonceAt \<times> address) list" where
  "calls_for a cs = filter (\<lambda>c. snd c = a) cs"

text \<open>The value most recently returned without an error to the calls for one account.\<close>

definition last_issued :: "address \<Rightarrow> (address \<times> uint64 \<times> error option) list \<Rightarrow> uint64 option" where
  "last_issued a rs =
     (case filter (\<lambda>r. snd r = None) (returned_for a rs) of
        [] \<Rightarrow> None
      | x # xs \<Rightarrow> Some (fst (last (x # xs))))"

section \<open>Transaction queue (transfer/queue.go)\<close>

subsection \<open>Data\<close>

text \<open>
  A \<open>*types.Transaction\<close> as far as the queue looks into it: \<open>tx.ChainId()\<close> is a big
  integer and \<open>tx.Hash()\<close> a 32-byte hash. \<open>Int64()\<close> keeps the low 64 bits.
\<close>

record Transaction =
  ChainId :: int
  Hash :: hash

definition Int64 :: "int \<Rightarrow> int64" where
  "Int64 x = word_of_int x"

record QueueResponse =
  tx :: "Transaction option"
  err :: "error option"

text \<open>
  A send operation is a closure without arguments that returns the pair
  \<open>(*types.Transaction, error)\<close>; either component may be nil.
\<close>

type_synonym TransactionSendFn = "unit \<Rightarrow> Transaction option \<times> error option"

text \<open>
  A response channel is named by a number. Its state is what has been sent on it and
  whether it has been closed. The receiving side belongs to the caller and is taken to be
  ready, so a send on an open channel goes through.
\<close>

record respChan =
  delivered :: "QueueResponse list"
  closed :: bool

record queueEntry =
  exec :: TransactionSendFn
  resp :: nat

text \<open>
  Time is a clock in nanoseconds, the unit of \<open>time.Duration\<close>.
\<close>

definition second :: nat where
  "second = 1000000000"

text \<open>
  The struct \<open>Queue\<close>. The buffered channel \<open>queue\<close> is its content in arrival order, its
  capacity and whether it has been closed. The channel \<open>stop\<close> is only ever closed, so it
  is the instant of its closing: \<open>None\<close> when nobody closes it, \<open>Some s\<close> when it is
  closed from instant \<open>s\<close> on (an instant still ahead of the clock is a \<open>Stop()\<close> that
  another goroutine performs while the worker waits). The collaborator \<open>bc\<close> answers
  \<open>TransactionByHash\<close> with \<open>(pending, error)\<close>, the transaction it also returns being
  discarded by the queue; its first argument is the number of calls made before, so that
  the answer may change from call to call.
\<close>

record Queue =
  queue :: "queueEntry list"
  queue_cap :: nat
  queue_closed :: bool
  stop :: "nat option"
  bc :: "nat \<Rightarrow> int64 \<Rightarrow> hash \<Rightarrow> bool \<times> error option"
  timeout :: nat
  once :: bool

text \<open>
  What surrounds the queue: the clock, the response channels, the number of
  \<open>TransactionByHash\<close> calls made so far, the send operations run so far, and the choices
  that Go's \<open>select\<close> makes when several cases are ready (\<open>pick\<close> at the number of
  selects done so far).
\<close>

record world = Queue +
  now :: nat
  chans :: "nat \<Rightarrow> respChan"
  bc_calls :: nat
  executed :: "TransactionSendFn list"
  selects :: nat
  pick :: "nat \<Rightarrow> nat"

datatype 'a outcome = Returned 'a world | Blocked world | Panic world

definition NewQueue ::
  "nat \<Rightarrow> (nat \<Rightarrow> int64 \<Rightarrow> hash \<Rightarrow> bool \<times> error option) \<Rightarrow> nat \<Rightarrow> Queue" where
  "NewQueue sz cl tmo =
     \<lparr>queue = [], queue_cap = sz, queue_closed = False, stop = None,
      bc = cl, timeout = tmo, once = False\<rparr>"

text \<open>A queue placed in a world at instant 0 where no response channel has been used.\<close>

definition start :: "Queue \<Rightarrow> (nat \<Rightarrow> nat) \<Rightarrow> world" where
  "start q p =
     \<lparr>queue = queue q, queue_cap = queue_cap q, queue_closed = queue_closed q,
      stop = stop q, bc = bc q, timeout = timeout q, once = once q,
      now = 0, chans = (\<lambda>_. \<lparr>delivered = [], closed = False\<rparr>), bc_calls = 0,
      executed = [], selects = 0, pick = p\<rparr>"

subsection \<open>Select\<close>

text \<open>
  A \<open>select\<close> without default: each case comes with the instant from which it is ready
  (\<open>None\<close>: never). The goroutine sleeps until the earliest such instant, or not at all if
  that instant has passed; among the cases ready then, one is chosen by \<open>p\<close>. With no case
  that ever becomes ready it blocks for good.
\<close>

datatype select_case = CtxDone | StopClosed | TimeAfter | RecvQueue

fun earliest :: "('c \<times> nat option) list \<Rightarrow> nat option" where
  "earliest [] = None"
| "earliest ((c, None) # cs) = earliest cs"
| "earliest ((c, Some r) # cs) =
     (case earliest cs of None \<Rightarrow> Some r | Some m \<Rightarrow> Some (min r m))"

fun ready_at :: "nat \<Rightarrow> ('c \<times> nat option) list \<Rightarrow> 'c list" where
  "ready_at t [] = []"
| "ready_at t ((c, None) # cs) = ready_at t cs"
| "ready_at t ((c, Some r) # cs) = (if r \<le> t then c # ready_at t cs else ready_at t cs)"

definition go_select :: "nat \<Rightarrow> nat \<Rightarrow> ('c \<times> nat option) list \<Rightarrow> (nat \<times> 'c) option" where
  "go_select p t0 cs =
     (case earliest cs of
        None \<Rightarrow> None
      | Some m \<Rightarrow>
          (let wake = max t0 m; ready = ready_at wake cs
           in Some (wake, ready ! (p mod length ready))))"

text \<open>The world after a select that woke at instant \<open>t\<close>.\<close>

definition woke :: "world \<Rightarrow> nat \<Rightarrow> world" where
  "woke w t = w\<lparr>now := t, selects := selects w + 1\<rparr>"

definition stop_closed :: "world \<Rightarrow> bool" where
  "stop_closed w = (case stop w of None \<Rightarrow> False | Some s \<Rightarrow> s \<le> now w)"

subsection \<open>Confirmation polling\<close>

definition TransactionByHash :: "int64 \<Rightarrow> hash \<Rightarrow> world \<Rightarrow> (bool \<times> error option) \<times> world" where
  "TransactionByHash chainID txHash w =
     (bc w (bc_calls w) chainID txHash, w\<lparr>bc_calls := bc_calls w + 1\<rparr>)"

text \<open>
  The select of \<open>checkIfTransactionExists\<close>: the context is done from its deadline on,
  \<open>stop\<close> is readable once closed, and \<open>time.After(time.Second)\<close> fires one second after
  the select is entered.
\<close>

definition poll_select :: "nat \<Rightarrow> world \<Rightarrow> (nat \<times> select_case) option" where
  "poll_select deadline w =
     go_select (pick w (selects w)) (now w)
       [(CtxDone, Some deadline), (StopClosed, stop w), (TimeAfter, Some (now w + second))]"

text \<open>Facts about the select that the termination of the polling loop rests on.\<close>

lemma second_pos: "0 < second"
  by (simp add: second_def)

lemma ready_at_nonempty:
  "earliest cs = Some m \<Longrightarrow> m \<le> t \<Longrightarrow> ready_at t cs \<noteq> []"
  by (induction cs rule: earliest.induct) (auto split: option.splits if_splits)

lemma go_select_mem:
  assumes "go_select p t0 cs = Some (t, c)"
  shows "(\<exists>m. earliest cs = Some m \<and> t = max t0 m) \<and> c \<in> set (ready_at t cs)"
proof -
  from assms obtain m where m: "earliest cs = Some m"
    by (auto simp: go_select_def split: option.splits)
  with assms have t: "t = max t0 m" and c: "c = ready_at t cs ! (p mod length (ready_at t cs))"
    by (auto simp: go_select_def Let_def)
  have "ready_at t cs \<noteq> []" using m t by (intro ready_at_nonempty[OF m]) simp
  then have "p mod length (ready_at t cs) < length (ready_at t cs)" by simp
  then have "c \<in> set (ready_at t cs)" using c nth_mem by metis
  with m t show ?thesis by blast
qed

lemma poll_select_TimeAfter:
  assumes "poll_select d w = Some (t, TimeAfter)"
  shows "t = now w + second \<and> now w + second \<le> d"
proof -
  from go_select_mem[OF assms[unfolded poll_select_def]] second_pos
  show ?thesis
    by (cases "stop w") (auto split: if_splits simp: min_def max_def)
qed

text \<open>
  The loop of \<open>checkIfTransactionExists\<close>; \<open>deadline\<close> is the instant at which \<open>ctx\<close>
  is done. A failed \<open>TransactionByHash\<close> is logged and the loop goes on.
\<close>

function checkIfTransactionExists :: "nat \<Rightarrow> int64 \<Rightarrow> hash \<Rightarrow> world \<Rightarrow> error option outcome" where
  "checkIfTransactionExists deadline chainID txHash w =
     (case poll_select deadline w of
        None \<Rightarrow> Blocked w
      | Some (t, CtxDone) \<Rightarrow>
          Returned (Some (ErrFailedInQueue txHash ErrTrasactionMissing)) (woke w t)
      | Some (t, StopClosed) \<Rightarrow> Returned None (woke w t)
      | Some (t, TimeAfter) \<Rightarrow>
          (case TransactionByHash chainID txHash (woke w t) of
             ((pending, Some e), w') \<Rightarrow> checkIfTransactionExists deadline chainID txHash w'
           | ((pending, None), w') \<Rightarrow>
               if \<not> pending then Returned None w'
               else checkIfTransactionExists deadline chainID txHash w')
      | Some (t, RecvQueue) \<Rightarrow> Panic w)"
  by pat_completeness auto
termination
proof (relation "measure (\<lambda>(deadline, chainID, txHash, w). deadline + 1 - now w)", goal_cases)
  case 1
  show ?case by simp
next
  case (2 deadline chainID txHash w x2 t c r w')
  then have "poll_select deadline w = Some (t, TimeAfter)" and "now w' = t"
    by (auto simp: TransactionByHash_def woke_def)
  with poll_select_TimeAfter[of deadline w t] second_pos show ?case by auto
next
  case (3 deadline chainID txHash w x2 t c r w')
  then have "poll_select deadline w = Some (t, TimeAfter)" and "now w' = t"
    by (auto simp: TransactionByHash_def woke_def)
  with poll_select_TimeAfter[of deadline w t] second_pos show ?case by auto
qed

declare checkIfTransactionExists.simps [simp del]

text \<open>
  \<open>context.WithTimeout(context.Background(), q.timeout)\<close> is done \<open>timeout\<close> after now.
\<close>

definition waitAfterSend :: "int64 \<Rightarrow> hash \<Rightarrow> world \<Rightarrow> error option outcome" where
  "waitAfterSend chainID txHash w =
     checkIfTransactionExists (now w + timeout w) chainID txHash w"

subsection \<open>Responses\<close>

text \<open>Sending on a closed channel panics, and so does closing one.\<close>

definition chan_send :: "nat \<Rightarrow> QueueResponse \<Rightarrow> world \<Rightarrow> unit outcome" where
  "chan_send ch m w =
     (if closed (chans w ch) then Panic w
      else Returned ()
        (w\<lparr>chans := (chans w)(ch := (chans w ch)\<lparr>delivered := delivered (chans w ch) @ [m]\<rparr>)\<rparr>))"

definition chan_close :: "nat \<Rightarrow> world \<Rightarrow> unit outcome" where
  "chan_close ch w =
     (if closed (chans w ch) then Panic w
      else Returned () (w\<lparr>chans := (chans w)(ch := (chans w ch)\<lparr>closed := True\<rparr>)\<rparr>))"

text \<open>The method \<open>resp\<close> of the queue.\<close>

definition Queue_resp :: "Transaction option \<Rightarrow> error option \<Rightarrow> nat \<Rightarrow> world \<Rightarrow> unit outcome" where
  "Queue_resp t e ch w =
     (case chan_send ch \<lparr>tx = t, err = e\<rparr> w of
        Returned _ w' \<Rightarrow> chan_close ch w'
      | Blocked w' \<Rightarrow> Blocked w'
      | Panic w' \<Rightarrow> Panic w')"

definition Result :: "QueueResponse \<Rightarrow> Transaction option \<times> error option" where
  "Result qr =
     (if tx qr = None \<and> err qr = None then (None, Some ErrQueueMissingResult)
      else (tx qr, err qr))"

subsection \<open>The worker\<close>

text \<open>
  \<open>for entry := range q.queue\<close> on the closed channel: the buffered entries in order.
\<close>

fun drain :: "queueEntry list \<Rightarrow> world \<Rightarrow> unit outcome" where
  "drain [] w = Returned () w"
| "drain (entry # rest) w =
     (case Queue_resp None (Some ErrQueueClosed) (resp entry) (w\<lparr>queue := rest\<rparr>) of
        Returned _ w' \<Rightarrow> drain rest w'
      | Blocked w' \<Rightarrow> Blocked w'
      | Panic w' \<Rightarrow> Panic w')"

text \<open>
  The select of \<open>Run\<close>: \<open>stop\<close> is readable once closed, \<open>queue\<close> as soon as it holds
  an entry.
\<close>

definition Run_select :: "world \<Rightarrow> (nat \<times> select_case) option" where
  "Run_select w =
     go_select (pick w (selects w)) (now w)
       [(StopClosed, stop w), (RecvQueue, if queue w = [] then None else Some (now w))]"

datatype loop = Continue | Return

text \<open>
  One turn of the loop of \<open>Run\<close>. A send operation that returns neither a transaction
  nor an error makes \<open>tx.ChainId()\<close> dereference nil.
\<close>

definition Run_iter :: "world \<Rightarrow> loop outcome" where
  "Run_iter w =
     (case Run_select w of
        None \<Rightarrow> Blocked w
      | Some (t, StopClosed) \<Rightarrow>
          (case drain (queue w) ((woke w t)\<lparr>queue_closed := True\<rparr>) of
             Returned _ w' \<Rightarrow> Returned Return w'
           | Blocked w' \<Rightarrow> Blocked w'
           | Panic w' \<Rightarrow> Panic w')
      | Some (t, RecvQueue) \<Rightarrow>
          (case queue w of
             [] \<Rightarrow> Blocked w
           | entry # rest \<Rightarrow>
               (let w1 = (woke w t)\<lparr>queue := rest, executed := executed w @ [exec entry]\<rparr>
                in case exec entry () of
                     (txo, Some e) \<Rightarrow>
                       (case Queue_resp None (Some e) (resp entry) w1 of
                          Returned _ w' \<Rightarrow> Returned Continue w'
                        | Blocked w' \<Rightarrow> Blocked w'
                        | Panic w' \<Rightarrow> Panic w')
                   | (None, None) \<Rightarrow> Panic w1
                   | (Some tr, None) \<Rightarrow>
                       (case waitAfterSend (Int64 (ChainId tr)) (Hash tr) w1 of
                          Returned e w2 \<Rightarrow>
                            (case Queue_resp (Some tr) e (resp entry) w2 of
                               Returned _ w' \<Rightarrow> Returned Continue w'
                             | Blocked w' \<Rightarrow> Blocked w'
                             | Panic w' \<Rightarrow> Panic w')
                        | Blocked w2 \<Rightarrow> Blocked w2
                        | Panic w2 \<Rightarrow> Panic w2)))
      | Some (t, CtxDone) \<Rightarrow> Panic w
      | Some (t, TimeAfter) \<Rightarrow> Panic w)"

text \<open>
  The whole loop of \<open>Run\<close>, in a world where nobody enqueues while it runs: every turn
  that continues has taken an entry out of the buffer. The loop ends by returning, by a
  panic, or by waiting for good on an empty buffer that nobody stops. The facts before it
  say that polling always returns and changes nothing but the clock and the counters.
\<close>

lemma poll_select_cases:
  obtains t where "poll_select d w = Some (t, CtxDone)"
  | t where "poll_select d w = Some (t, StopClosed)"
  | t where "poll_select d w = Some (t, TimeAfter)"
proof -
  have e: "earliest [(CtxDone, Some d), (StopClosed, stop w), (TimeAfter, Some (now w + second))] \<noteq> None"
    by (cases "stop w") auto
  then obtain t c where s: "poll_select d w = Some (t, c)"
    by (auto simp: poll_select_def go_select_def Let_def split: option.splits)
  from go_select_mem[OF s[unfolded poll_select_def]]
  have "c \<in> {CtxDone, StopClosed, TimeAfter}"
    by (cases "stop w") (auto split: if_splits)
  with s that show ?thesis by auto
qed

lemma poll_select_later: "poll_select d w = Some (t, c) \<Longrightarrow> now w \<le> t"
  by (auto simp: poll_select_def dest!: go_select_mem)

definition same_but_time :: "world \<Rightarrow> world \<Rightarrow> bool" where
  "same_but_time w w' \<longleftrightarrow>
     w' = w\<lparr>now := now w', selects := selects w', bc_calls := bc_calls w'\<rparr>"

lemma same_but_time_refl: "same_but_time w w"
  by (simp add: same_but_time_def)

lemma same_but_time_woke: "same_but_time w (woke w t)"
  by (simp add: same_but_time_def woke_def)

lemma same_but_time_trans: "same_but_time a b \<Longrightarrow> same_but_time b c \<Longrightarrow> same_but_time a c"
  unfolding same_but_time_def
  by (cases a, cases b, cases c) simp

lemma same_but_time_TBH:
  "same_but_time w w1 \<Longrightarrow> TransactionByHash c h w1 = (r, w') \<Longrightarrow> same_but_time w w'"
  unfolding same_but_time_def TransactionByHash_def
  by (cases w, cases w1, cases w') auto

lemma poller_total_frame:
  "\<exists>e w'. checkIfTransactionExists d c h w = Returned e w' \<and> same_but_time w w'
      \<and> now w \<le> now w' \<and> bc_calls w \<le> bc_calls w'"
proof (induction d c h w rule: checkIfTransactionExists.induct)
  case (1 d c h w)
  show ?case
  proof (cases rule: poll_select_cases[of d w])
    case (1 t)
    then show ?thesis
      using poll_select_later[OF 1] same_but_time_woke[of w t]
      by (subst checkIfTransactionExists.simps) (simp add: woke_def)
  next
    case (2 t)
    then show ?thesis
      using poll_select_later[OF 2] same_but_time_woke[of w t]
      by (subst checkIfTransactionExists.simps) (simp add: woke_def)
  next
    case (3 t)
    obtain pending eo w1 where tbh: "TransactionByHash c h (woke w t) = ((pending, eo), w1)"
      by (metis prod.exhaust)
    have f: "same_but_time w w1"
      using same_but_time_TBH[OF same_but_time_woke tbh] .
    have n: "now w \<le> now w1" "bc_calls w \<le> bc_calls w1"
      using tbh poll_select_later[OF 3] by (auto simp: TransactionByHash_def woke_def)
    show ?thesis
    proof (cases "eo = None \<and> \<not> pending")
      case True
      then show ?thesis using 3 tbh f n
        by (subst checkIfTransactionExists.simps) simp
    next
      case False
      have "\<exists>e w'. checkIfTransactionExists d c h w1 = Returned e w' \<and> same_but_time w1 w'
              \<and> now w1 \<le> now w' \<and> bc_calls w1 \<le> bc_calls w'"
      proof (cases eo)
        case None
        with False have "pending" by simp
        from "1.IH"(1)[OF 3 refl refl tbh[symmetric] refl None] this show ?thesis by simp
      next
        case (Some e)
        from "1.IH"(2)[OF 3 refl refl tbh[symmetric] refl Some] show ?thesis .
      qed
      then obtain e w' where r: "checkIfTransactionExists d c h w1 = Returned e w'"
        "same_but_time w1 w'" "now w1 \<le> now w'" "bc_calls w1 \<le> bc_calls w'" by blast
      have "checkIfTransactionExists d c h w = checkIfTransactionExists d c h w1"
        using 3 tbh False by (subst checkIfTransactionExists.simps) (auto split: option.splits)
      with r f n same_but_time_trans[OF f r(2)] show ?thesis by auto
    qed
  qed
qed

lemma same_but_time_fields:
  assumes "same_but_time w w'"
  shows "queue w' = queue w" "queue_cap w' = queue_cap w" "queue_closed w' = queue_closed w"
    "stop w' = stop w" "bc w' = bc w" "timeout w' = timeout w" "once w' = once w"
    "chans w' = chans w" "executed w' = executed w" "pick w' = pick w"
  using assms unfolding same_but_time_def by (cases w, cases w', simp)+

lemma Queue_resp_open:
  "\<not> closed (chans w ch) \<Longrightarrow>
     Queue_resp t e ch w =
       Returned () (w\<lparr>chans := (chans w)
          (ch := \<lparr>delivered = delivered (chans w ch) @ [\<lparr>tx = t, err = e\<rparr>], closed = True\<rparr>)\<rparr>)"
  by (cases "chans w ch") (simp add: Queue_resp_def chan_send_def chan_close_def)

lemma Queue_resp_closed: "closed (chans w ch) \<Longrightarrow> Queue_resp t e ch w = Panic w"
  by (simp add: Queue_resp_def chan_send_def)

lemma Queue_resp_queue:
  "Queue_resp t e ch w = Returned u w' \<Longrightarrow> queue w' = queue w"
  by (cases "closed (chans w ch)") (auto simp: Queue_resp_open Queue_resp_closed)

lemma waitAfterSend_queue:
  "waitAfterSend c h w = Returned e w' \<Longrightarrow> queue w' = queue w"
  using poller_total_frame[of "now w + timeout w" c h w]
  by (auto simp: waitAfterSend_def same_but_time_fields)

lemma Run_iter_Continue:
  assumes "Run_iter w = Returned Continue w'"
  shows "length (queue w') < length (queue w)"
  using assms
  by (auto simp: Run_iter_def Let_def woke_def
      split: option.splits prod.splits select_case.splits list.splits outcome.splits
      dest!: Queue_resp_queue waitAfterSend_queue)

function Run :: "world \<Rightarrow> unit outcome" where
  "Run w =
     (case Run_iter w of
        Returned Continue w' \<Rightarrow> Run w'
      | Returned Return w' \<Rightarrow> Returned () w'
      | Blocked w' \<Rightarrow> Blocked w'
      | Panic w' \<Rightarrow> Panic w')"
  by pat_completeness auto
termination
  by (relation "measure (\<lambda>w. length (queue w))") (auto dest: Run_iter_Continue)

declare Run.simps [simp del]

subsection \<open>Stop and enqueue\<close>

text \<open>\<open>q.once.Do\<close> runs \<open>close(q.stop)\<close> at most once.\<close>

definition Stop :: "world \<Rightarrow> unit outcome" where
  "Stop w =
     (if once w then Returned () w
      else if stop_closed w then Panic w
      else Returned () (w\<lparr>stop := Some (now w), once := True\<rparr>))"

text \<open>
  The select with a default: the case \<open><-q.stop\<close> is taken when \<open>stop\<close> is closed, the
  default otherwise. The send in the default blocks while the buffer is full.
\<close>

definition TransactionEnqueue :: "TransactionSendFn \<Rightarrow> nat \<Rightarrow> world \<Rightarrow> error option outcome" where
  "TransactionEnqueue ex ch w =
     (if stop_closed w then Returned (Some ErrQueueClosed) w
      else if queue_closed w then Panic w
      else if length (queue w) < queue_cap w
        then Returned None (w\<lparr>queue := queue w @ [\<lparr>exec = ex, resp = ch\<rparr>]\<rparr>)
      else Blocked w)"

section \<open>Properties of the nonce tracker\<close>

lemma GetNonce_cached:
  "nonces nt a = Some v \<Longrightarrow>
     GetNonce client nt a = ((v + 1, None), nt\<lparr>nonces := (nonces nt)(a \<mapsto> v + 1)\<rparr>)"
  by (simp add: GetNonce_def Let_def)

lemma GetNonces_Cons_fst:
  "fst (GetNonces nt ((cl, b) # cs)) =
     (b, fst (GetNonce cl nt b)) # fst (GetNonces (snd (GetNonce cl nt b)) cs)"
  by (simp add: split_beta Let_def)

lemma GetNonces_Cons_snd:
  "snd (GetNonces nt ((cl, b) # cs)) = snd (GetNonces (snd (GetNonce cl nt b)) cs)"
  by (simp add: split_beta Let_def)

lemma GetNonce_other:
  "b \<noteq> a \<Longrightarrow> nonces (snd (GetNonce client nt b)) a = nonces nt a"
  by (simp add: GetNonce_def Let_def split: option.splits prod.splits)

lemma map_upt_shift: "map f [0..<Suc n] = f 0 # map (\<lambda>i. f (Suc i)) [0..<n]"
  by (simp add: upt_conv_Cons map_Suc_upt[symmetric] del: upt_Suc)

lemma GetNonces_cached:
  "nonces nt a = Some v \<Longrightarrow>
     returned_for a (fst (GetNonces nt cs)) =
       map (\<lambda>i. (v + 1 + of_nat i, None)) [0..<length (calls_for a cs)]"
proof (induction cs arbitrary: nt v)
  case Nil
  then show ?case by (simp add: returned_for_def calls_for_def)
next
  case (Cons c cs)
  obtain cl b where c: "c = (cl, b)" by (cases c)
  show ?case
  proof (cases "b = a")
    case True
    let ?nt = "nt\<lparr>nonces := (nonces nt)(a \<mapsto> v + 1)\<rparr>"
    have g: "GetNonce cl nt a = ((v + 1, None), ?nt)"
      using Cons.prems by (rule GetNonce_cached)
    have "nonces ?nt a = Some (v + 1)" by simp
    from Cons.IH[OF this]
    have ih: "returned_for a (fst (GetNonces ?nt cs)) =
       map (\<lambda>i. (v + 1 + 1 + of_nat i, None)) [0..<length (calls_for a cs)]" .
    have "returned_for a (fst (GetNonces nt (c # cs))) =
            (v + 1, None) # returned_for a (fst (GetNonces ?nt cs))"
      using True by (simp add: c g returned_for_def GetNonces_Cons_fst del: GetNonces.simps)
    also have "\<dots> = map (\<lambda>i. (v + 1 + of_nat i, None)) [0..<Suc (length (calls_for a cs))]"
      unfolding ih map_upt_shift by (simp add: add.assoc add.commute)
    finally show ?thesis using True by (simp add: c calls_for_def)
  next
    case False
    obtain r nt' where g: "GetNonce cl nt b = (r, nt')" by (cases "GetNonce cl nt b")
    have "nonces nt' a = Some v"
      using GetNonce_other[OF False, of cl nt] g Cons.prems by simp
    from Cons.IH[OF this] show ?thesis
      using False by (simp add: c g returned_for_def calls_for_def GetNonces_Cons_fst del: GetNonces.simps)
  qed
qed

lemma GetNonces_fresh:
  assumes "nonces nt a = None" "calls_for a cs = (cl, a) # rest" "cl a = (p, None)"
  shows "returned_for a (fst (GetNonces nt cs)) =
           map (\<lambda>i. (p + of_nat i, None)) [0..<length (calls_for a cs)]"
  using assms
proof (induction cs arbitrary: nt)
  case Nil
  then show ?case by (simp add: calls_for_def)
next
  case (Cons c cs)
  obtain cl' b where c: "c = (cl', b)" by (cases c)
  show ?case
  proof (cases "b = a")
    case True
    with Cons.prems c have cl: "cl' = cl" by (simp add: calls_for_def)
    let ?nt = "nt\<lparr>nonces := (nonces nt)(a \<mapsto> p)\<rparr>"
    have g: "GetNonce cl nt a = ((p, None), ?nt)"
      using Cons.prems by (simp add: GetNonce_def Let_def)
    have "nonces ?nt a = Some p" by simp
    from GetNonces_cached[OF this, of cs]
    have ih: "returned_for a (fst (GetNonces ?nt cs)) =
       map (\<lambda>i. (p + 1 + of_nat i, None)) [0..<length (calls_for a cs)]" .
    have "returned_for a (fst (GetNonces nt (c # cs))) =
            (p, None) # returned_for a (fst (GetNonces ?nt cs))"
      using True by (simp add: c cl g returned_for_def GetNonces_Cons_fst del: GetNonces.simps)
    also have "\<dots> = map (\<lambda>i. (p + of_nat i, None)) [0..<Suc (length (calls_for a cs))]"
      unfolding ih map_upt_shift by (simp add: add.assoc add.commute)
    finally show ?thesis using True by (simp add: c calls_for_def)
  next
    case False
    obtain r nt' where g: "GetNonce cl' nt b = (r, nt')" by (cases "GetNonce cl' nt b")
    have n: "nonces nt' a = None"
      using GetNonce_other[OF False, of cl' nt] g Cons.prems by simp
    have "calls_for a cs = (cl, a) # rest"
      using Cons.prems False by (simp add: c calls_for_def)
    from Cons.IH[OF n this Cons.prems(3)] show ?thesis
      using False by (simp add: c g returned_for_def calls_for_def GetNonces_Cons_fst del: GetNonces.simps)
  qed
qed

lemma unat_no_wrap:
  "unat (p :: uint64) + i < 2 ^ 64 \<Longrightarrow> unat (p + of_nat i) = unat p + i"
  by (simp add: unat_word_ariths unat_of_nat)

lemma unat_add_of_nat:
  "unat ((p :: uint64) + of_nat i) = (unat p + i) mod 2 ^ 64"
  by (simp add: unat_word_ariths unat_of_nat mod_add_right_eq)

lemma GetNonce_entry:
  assumes "GetNonce client nt b = (r, nt')"
  shows "nonces nt' a = (if b = a \<and> snd r = None then Some (fst r) else nonces nt a)"
proof (cases "nonces nt b")
  case (Some v)
  with assms show ?thesis by (auto simp: GetNonce_def Let_def)
next
  case None
  obtain n eo where c: "client b = (n, eo)" by (cases "client b")
  from None c have "GetNonce client nt b =
      ((n, eo), if eo = None then nt\<lparr>nonces := (nonces nt)(b \<mapsto> n)\<rparr> else nt)"
    by (simp add: GetNonce_def)
  with assms have "r = (n, eo)" and "nt' = (if eo = None then nt\<lparr>nonces := (nonces nt)(b \<mapsto> n)\<rparr> else nt)"
    by simp_all
  with None show ?thesis by auto
qed

lemma GetNonces_final_cached:
  "nonces nt a = Some v \<Longrightarrow>
     nonces (snd (GetNonces nt cs)) a = Some (v + of_nat (length (calls_for a cs)))"
proof (induction cs arbitrary: nt v)
  case Nil
  then show ?case by (simp add: calls_for_def)
next
  case (Cons c cs)
  obtain cl b where c: "c = (cl, b)" by (cases c)
  show ?case
  proof (cases "b = a")
    case True
    have "nonces (snd (GetNonce cl nt a)) a = Some (v + 1)"
      using Cons.prems by (simp add: GetNonce_cached)
    from Cons.IH[OF this] show ?thesis
      using True by (simp add: c calls_for_def GetNonces_Cons_snd add.assoc del: GetNonces.simps)
  next
    case False
    have "nonces (snd (GetNonce cl nt b)) a = Some v"
      using GetNonce_other[OF False] Cons.prems by simp
    from Cons.IH[OF this] show ?thesis
      using False by (simp add: c calls_for_def GetNonces_Cons_snd del: GetNonces.simps)
  qed
qed

lemma last_issued_Cons:
  "last_issued a ((b, r) # rs) =
     (case last_issued a rs of
        Some n \<Rightarrow> Some n
      | None \<Rightarrow> if b = a \<and> snd r = None then Some (fst r) else None)"
  by (auto simp: last_issued_def returned_for_def split: list.splits)

lemma GetNonces_last_issued:
  "nonces (snd (GetNonces nt cs)) a =
     (case last_issued a (fst (GetNonces nt cs)) of None \<Rightarrow> nonces nt a | Some n \<Rightarrow> Some n)"
proof (induction cs arbitrary: nt)
  case Nil
  show ?case by (simp add: last_issued_def returned_for_def)
next
  case (Cons c cs)
  obtain cl b where c: "c = (cl, b)" by (cases c)
  obtain r nt1 where g: "GetNonce cl nt b = (r, nt1)" by (cases "GetNonce cl nt b")
  show ?case
    using Cons.IH[of nt1] GetNonce_entry[OF g, of a]
    by (simp add: c g GetNonces_Cons_fst GetNonces_Cons_snd last_issued_Cons
        split: option.splits del: GetNonces.simps)
qed

text \<open>
  C1, as amended. For an account without an entry whose first call finds the chain
  reporting the pending nonce \<open>p\<close> without error, every call for that account returns no
  error, and the \<open>k\<close>-th one returns \<open>p + k - 1\<close> modulo \<open>2 ^ 64\<close>, whatever calls for
  other accounts come in between and whatever the chain reports later. Below \<open>2 ^ 64\<close>
  the values are therefore \<open>p, p + 1, p + 2, \<dots>\<close> without duplicate or gap.
\<close>

theorem GetNonce_sequence_mod:
  assumes "nonces nt a = None"
    and "calls_for a cs = (cl, a) # rest"
    and "cl a = (p, None)"
  shows "length (returned_for a (fst (GetNonces nt cs))) = length (calls_for a cs) \<and>
    (\<forall>k. 1 \<le> k \<and> k \<le> length (calls_for a cs) \<longrightarrow>
       snd (returned_for a (fst (GetNonces nt cs)) ! (k - 1)) = None \<and>
       unat (fst (returned_for a (fst (GetNonces nt cs)) ! (k - 1))) = (unat p + k - 1) mod 2 ^ 64)"
proof -
  have rs: "returned_for a (fst (GetNonces nt cs)) =
      map (\<lambda>i. (p + of_nat i, None)) [0..<length (calls_for a cs)]"
    using assms by (rule GetNonces_fresh)
  show ?thesis
    unfolding rs by (auto simp: unat_add_of_nat)
qed

text \<open>
  The amended C1 at a run of three calls, two of them for account 7.
\<close>

theorem GetNonce_sequence_mod_witness:
  "returned_for 7 (fst (GetNonces NewNonceTracker
      [(\<lambda>_. (5, None), 7), (\<lambda>_. (100, None), 9), (\<lambda>_. (0, Some (ErrOther ''rpc'')), 7)])) =
     [(5, None), (6, None)]"
proof -
  let ?cs = "[(\<lambda>_. (5 :: uint64, None :: error option), 7 :: address), (\<lambda>_. (100, None), 9),
     (\<lambda>_. (0, Some (ErrOther ''rpc'')), 7)]"
  have a: "nonces NewNonceTracker (7 :: address) = None" by (simp add: NewNonceTracker_def)
  have b: "calls_for 7 ?cs = (\<lambda>_. (5, None), 7) # [(\<lambda>_. (0, Some (ErrOther ''rpc'')), 7)]"
    by (simp add: calls_for_def)
  have c: "(\<lambda>_. (5 :: uint64, None :: error option)) (7 :: address) = (5, None)" by simp
  from GetNonce_sequence_mod[OF a b c] show ?thesis
    by (simp add: returned_for_def GetNonce_def NewNonceTracker_def Let_def)
qed

text \<open>
  C1 as stated fails where the counter wraps: with \<open>p = 2 ^ 64 - 1\<close> the second call
  returns 0, not \<open>p + 1\<close>.
\<close>

theorem GetNonce_sequence_counterexample:
  "returned_for 7 (fst (GetNonces NewNonceTracker
      [(\<lambda>_. (18446744073709551615, None), 7), (\<lambda>_. (18446744073709551615, None), 7)])) =
     [(18446744073709551615, None), (0, None)]
   \<and> unat (0 :: uint64) \<noteq> unat (18446744073709551615 :: uint64) + 2 - 1"
  by (simp add: returned_for_def GetNonce_def NewNonceTracker_def Let_def)

text \<open>
  C8. When the account has no entry and the chain query fails, \<open>GetNonce\<close> returns what
  the query returned, error included, and leaves the tracker as it was. The next call for
  the account therefore asks the chain again: it returns the chain's answer of that
  moment and caches it only if that answer carries no error.
\<close>

theorem GetNonce_error_caches_nothing:
  assumes "nonces nt a = None" and "client a = (n, Some e)"
  shows "GetNonce client nt a = ((n, Some e), nt) \<and>
         GetNonce client' (snd (GetNonce client nt a)) a =
           (client' a,
            if snd (client' a) = None then nt\<lparr>nonces := (nonces nt)(a \<mapsto> fst (client' a))\<rparr>
            else nt)"
  using assms by (auto simp: GetNonce_def Let_def split: prod.splits)

text \<open>
  C8 at a failing query followed by a successful one.
\<close>

theorem GetNonce_error_caches_nothing_witness:
  "GetNonce (\<lambda>_. (0, Some (ErrOther ''rpc''))) NewNonceTracker 7 =
     ((0, Some (ErrOther ''rpc'')), NewNonceTracker) \<and>
   GetNonce (\<lambda>_. (5, None))
     (snd (GetNonce (\<lambda>_. (0, Some (ErrOther ''rpc''))) NewNonceTracker 7)) 7 =
     ((5, None), NewNonceTracker\<lparr>nonces := (nonces NewNonceTracker)(7 \<mapsto> 5)\<rparr>)"
proof -
  have a: "nonces NewNonceTracker (7 :: address) = None" by (simp add: NewNonceTracker_def)
  have b: "(\<lambda>_. (0 :: uint64, Some (ErrOther ''rpc''))) (7 :: address) = (0, Some (ErrOther ''rpc''))"
    by simp
  from GetNonce_error_caches_nothing[OF a b, of "\<lambda>_. (5, None)"] show ?thesis
    by (simp add: GetNonce_def NewNonceTracker_def Let_def)
qed

text \<open>
  C10, as amended. A call that returns \<open>(n, nil)\<close> leaves \<open>n\<close> in the table for its
  account. After any run of calls the entry of an account is the value most recently
  returned to it without error (its old entry if there was none). The entry does not
  decrease over a run as long as the counter does not pass \<open>2 ^ 64 - 1\<close>.
\<close>

theorem nonce_table_tracks_last_issued:
  "(GetNonce client nt a = ((n, None), nt') \<longrightarrow> nonces nt' a = Some n)
   \<and> nonces (snd (GetNonces nt cs)) a =
     (case last_issued a (fst (GetNonces nt cs)) of None \<Rightarrow> nonces nt a | Some n \<Rightarrow> Some n)
   \<and> (\<forall>v. nonces nt a = Some v \<and> unat v + length (calls_for a cs) < 2 ^ 64 \<longrightarrow>
         (\<exists>v'. nonces (snd (GetNonces nt cs)) a = Some v' \<and> v \<le> v'))"
proof -
  have "v \<le> v + of_nat (length (calls_for a cs))"
    if "unat v + length (calls_for a cs) < 2 ^ 64" for v :: uint64
    using that by (simp add: word_le_nat_alt unat_no_wrap)
  then show ?thesis
    using GetNonces_last_issued[of nt cs a] GetNonces_final_cached[of nt a _ cs]
      GetNonce_entry[of client nt a "(n, None)" nt' a] by auto
qed

text \<open>
  The amended C10 at a run of three calls.
\<close>

theorem nonce_table_tracks_last_issued_witness:
  "nonces (snd (GetNonces NewNonceTracker
      [(\<lambda>_. (5, None), 7), (\<lambda>_. (100, None), 9), (\<lambda>_. (0, None), 7)])) 7 = Some 6"
  using nonce_table_tracks_last_issued[where nt = NewNonceTracker and a = 7 and cs =
      "[(\<lambda>_. (5, None), 7), (\<lambda>_. (100, None), 9), (\<lambda>_. (0, None), 7)]"]
  by (simp add: GetNonce_def NewNonceTracker_def Let_def last_issued_def returned_for_def)

text \<open>
  C10 as stated fails where the counter wraps: the entry \<open>2 ^ 64 - 1\<close> becomes 0 at the
  next call.
\<close>

theorem nonce_table_counterexample:
  "nonces (snd (GetNonces NewNonceTracker [(\<lambda>_. (18446744073709551615, None), 7)])) 7
     = Some 18446744073709551615 \<and>
   nonces (snd (GetNonces NewNonceTracker
      [(\<lambda>_. (18446744073709551615, None), 7), (\<lambda>_. (18446744073709551615, None), 7)])) 7
     = Some 0 \<and> (0 :: uint64) < 18446744073709551615"
  by (simp add: GetNonce_def NewNonceTracker_def Let_def)

end
